theory Spec2Isabelle
  imports Main "HOL-Library.Word"
begin

section \<open>Data model of minbpe.c\<close>

text \<open>
  The embedding follows \<^verbatim>\<open>src/minbpe.c\<close> function by function, in the data model where
  \<^verbatim>\<open>int\<close>, \<^verbatim>\<open>size_t\<close> and pointers have 32 bits. That is the model in which the cast
  \<^verbatim>\<open>(Merge *)pair_counts\<close> of \<^verbatim>\<open>token_counts\<close> reads the table of \<^verbatim>\<open>size_t\<close> triples as
  records of three \<^verbatim>\<open>int\<close>, the format the comment of \<^verbatim>\<open>token_counts\<close> gives.

  C \<^verbatim>\<open>int\<close> values are modelled as \<^typ>\<open>int\<close>: every id the program computes lies between
  0 and 256 + 1024, so no signed arithmetic overflows. \<^verbatim>\<open>size_t\<close> is a 32-bit word where
  the code subtracts or multiplies (the two places where it can wrap) and a \<^typ>\<open>nat\<close> where
  it only counts and indexes. Bytes (\<^verbatim>\<open>unsigned char\<close>) are 8-bit words. A text argument is
  the list of the bytes that precede the terminating NUL, so its length is what
  \<^verbatim>\<open>strlen\<close> returns.

  Heap arrays are lists as long as the allocation. A slot that was allocated and never
  written is \<open>None\<close>. The C functions return \<^verbatim>\<open>void\<close> and check nothing; an execution that
  reads or writes outside an array, or reads a slot never written, has no behaviour defined
  by the language, and the model gives it the value \<open>Inl\<close> of a \<open>fault\<close>. A result \<open>Inr\<close>
  is a run that returns normally. Buffers that belong to the caller (the \<^verbatim>\<open>ids\<close> argument of
  \<^verbatim>\<open>encode\<close>, the \<^verbatim>\<open>text\<close> argument of \<^verbatim>\<open>decode\<close>) are taken to be large enough; the
  fixed buffers the functions own (\<^verbatim>\<open>new_ids\<close>, \<^verbatim>\<open>pair_counts\<close>) are modelled with their
  bound. The \<^verbatim>\<open>verbose\<close> flag of \<^verbatim>\<open>train\<close> only prints and is left out.
\<close>

type_synonym byte = "8 word"
type_synonym size_t = "32 word"

definition INITIAL_VOCAB_SIZE :: nat where
  "INITIAL_VOCAB_SIZE = 256"

definition MAX_TEXT_SIZE :: nat where
  "MAX_TEXT_SIZE = 1024"

definition SIZE_MAX :: nat where
  "SIZE_MAX = 2 ^ 32 - 1"

definition PTRDIFF_MAX :: nat where
  "PTRDIFF_MAX = 2 ^ 31 - 1"

record IntPair =
  first :: int
  second :: int

record Merge =
  pair :: IntPair
  idx :: int

record BasicTokenizer =
  merges :: "Merge option list"
  num_merges :: nat
  vocab :: "byte list option list"
  vocab_size :: nat

datatype fault = OutOfBounds | Uninitialised

text \<open>
  One entry of the \<^verbatim>\<open>pair_counts\<close> table: the three consecutive \<^verbatim>\<open>size_t\<close> slots
  \<^verbatim>\<open>[first, second, count]\<close>.
\<close>

type_synonym count_entry = "int \<times> int \<times> nat"

section \<open>create\_tokenizer\<close>

definition create_tokenizer :: BasicTokenizer where
  "create_tokenizer =
     \<lparr>merges = [], num_merges = 0,
      vocab = map (\<lambda>i. Some [of_nat i]) [0..<INITIAL_VOCAB_SIZE],
      vocab_size = INITIAL_VOCAB_SIZE\<rparr>"

section \<open>find\_pair\_index\<close>

function find_pair_index_loop :: "Merge option list \<Rightarrow> nat \<Rightarrow> IntPair \<Rightarrow> nat \<Rightarrow> fault + nat" where
  "find_pair_index_loop ms merges_size p i =
     (if i < merges_size then
        (if i < length ms then
           (case ms ! i of
              None \<Rightarrow> Inl Uninitialised
            | Some m \<Rightarrow>
                if first (pair m) = first p \<and> second (pair m) = second p then Inr i
                else find_pair_index_loop ms merges_size p (i + 1))
         else Inl OutOfBounds)
      else Inr merges_size)"
  by pat_completeness auto
termination
  by (relation "measure (\<lambda>(ms, merges_size, p, i). merges_size - i)") auto

declare find_pair_index_loop.simps [simp del]

definition find_pair_index :: "Merge option list \<Rightarrow> nat \<Rightarrow> IntPair \<Rightarrow> fault + nat" where
  "find_pair_index ms merges_size p = find_pair_index_loop ms merges_size p 0"

section \<open>token\_counts\<close>

text \<open>
  \<^verbatim>\<open>token_counts\<close> hands its \<^verbatim>\<open>size_t\<close> table to \<^verbatim>\<open>find_pair_index\<close> through the cast
  \<^verbatim>\<open>(Merge *)pair_counts\<close>: entry \<open>k\<close> of the table is seen as the \<^verbatim>\<open>Merge\<close> whose pair is
  the entry's pair and whose \<^verbatim>\<open>idx\<close> is its count. An id is stored in a \<^verbatim>\<open>size_t\<close> slot and
  read back as an \<^verbatim>\<open>int\<close>, which gives the same id.
\<close>

definition as_merges :: "count_entry list \<Rightarrow> Merge option list" where
  "as_merges tab =
     map (\<lambda>(f, s, c). Some \<lparr>pair = \<lparr>first = f, second = s\<rparr>, idx = int c\<rparr>) tab"

fun bump :: "count_entry \<Rightarrow> count_entry" where
  "bump (f, s, c) = (f, s, c + 1)"

text \<open>
  The loop \<^verbatim>\<open>for (i = 0; i < ids_size - 1; ++i)\<close>, entered with \<open>ids_size \<ge> 1\<close>. The table
  has \<^verbatim>\<open>MAX_TEXT_SIZE * 3\<close> slots, room for \<^verbatim>\<open>MAX_TEXT_SIZE\<close> entries.
\<close>

function token_counts_loop :: "int list \<Rightarrow> nat \<Rightarrow> count_entry list \<Rightarrow> fault + count_entry list" where
  "token_counts_loop ids i tab =
     (if i < length ids - 1 then
        (case find_pair_index (as_merges tab) (length tab) \<lparr>first = ids ! i, second = ids ! (i + 1)\<rparr> of
           Inl e \<Rightarrow> Inl e
         | Inr index \<Rightarrow>
             if index = length tab then
               (if length tab < MAX_TEXT_SIZE
                then token_counts_loop ids (i + 1) (tab @ [(ids ! i, ids ! (i + 1), 1)])
                else Inl OutOfBounds)
             else token_counts_loop ids (i + 1) (tab[index := bump (tab ! index)]))
      else Inr tab)"
  by pat_completeness auto
termination
  by (relation "measure (\<lambda>(ids, i, tab). length ids - i)") auto

declare token_counts_loop.simps [simp del]

text \<open>
  With \<open>ids_size = 0\<close> the bound \<^verbatim>\<open>ids_size - 1\<close> wraps to \<^verbatim>\<open>SIZE_MAX\<close> and the first
  iteration reads \<^verbatim>\<open>ids[0]\<close> and \<^verbatim>\<open>ids[1]\<close> of an empty array.
\<close>

definition token_counts :: "int list \<Rightarrow> fault + count_entry list" where
  "token_counts ids = (if ids = [] then Inl OutOfBounds else token_counts_loop ids 0 [])"

section \<open>merge\<close>

text \<open>
  \<^verbatim>\<open>new_ids\<close> has \<^verbatim>\<open>MAX_TEXT_SIZE\<close> slots; a store past the last one is a fault. The
  final \<^verbatim>\<open>memcpy\<close> writes the result back over \<^verbatim>\<open>ids\<close>, which is the value returned here.
\<close>

function merge_loop :: "int list \<Rightarrow> IntPair \<Rightarrow> int \<Rightarrow> nat \<Rightarrow> int list \<Rightarrow> fault + int list" where
  "merge_loop ids p new_id i new_ids =
     (if i < length ids then
        (if length new_ids < MAX_TEXT_SIZE then
           (if ids ! i = first p \<and> i < length ids - 1 \<and> ids ! (i + 1) = second p
            then merge_loop ids p new_id (i + 2) (new_ids @ [new_id])
            else merge_loop ids p new_id (i + 1) (new_ids @ [ids ! i]))
         else Inl OutOfBounds)
      else Inr new_ids)"
  by pat_completeness auto
termination
  by (relation "measure (\<lambda>(ids, p, new_id, i, new_ids). length ids - i)") auto

declare merge_loop.simps [simp del]

definition merge :: "int list \<Rightarrow> IntPair \<Rightarrow> int \<Rightarrow> fault + int list" where
  "merge ids p new_id = merge_loop ids p new_id 0 []"

text \<open>
  The Merger as the specification words it: scan left to right, replace the target pair by
  the new id and skip both positions, copy everything else.
\<close>

fun apply_spec :: "int list \<Rightarrow> IntPair \<Rightarrow> int \<Rightarrow> int list" where
  "apply_spec (a # b # rest) p new_id =
     (if a = first p \<and> b = second p then new_id # apply_spec rest p new_id
      else a # apply_spec (b # rest) p new_id)"
| "apply_spec [a] p new_id = [a]"
| "apply_spec [] p new_id = []"

section \<open>train\<close>

text \<open>The selection loop of \<^verbatim>\<open>train\<close>: the first entry with the strictly largest count.\<close>

fun best_loop :: "count_entry list \<Rightarrow> nat \<Rightarrow> IntPair \<Rightarrow> nat \<times> IntPair" where
  "best_loop [] max_count best_pair = (max_count, best_pair)"
| "best_loop ((f, s, c) # rest) max_count best_pair =
     (if c > max_count then best_loop rest c \<lparr>first = f, second = s\<rparr>
      else best_loop rest max_count best_pair)"

text \<open>
  \<^verbatim>\<open>malloc(num_merges * sizeof(Merge))\<close> with \<^verbatim>\<open>sizeof(Merge) = 12\<close>: the product wraps as
  \<^verbatim>\<open>size_t\<close> arithmetic does. A request of at most \<^verbatim>\<open>PTRDIFF_MAX\<close> bytes is taken to
  succeed; a larger one returns \<^verbatim>\<open>NULL\<close>, an array with no slot. The result is never
  tested by the code.
\<close>

definition malloc_merges :: "size_t \<Rightarrow> Merge option list" where
  "malloc_merges n =
     (let bytes = unat (n * 12)
      in if bytes \<le> PTRDIFF_MAX then replicate (bytes div 12) None else [])"

text \<open>\<^verbatim>\<open>realloc\<close> of the vocabulary to \<open>n\<close> pointers: a prefix is kept, new slots are unwritten.\<close>

definition realloc_vocab :: "byte list option list \<Rightarrow> nat \<Rightarrow> byte list option list" where
  "realloc_vocab v n = take n v @ replicate (n - length v) None"

text \<open>
  Lines 116 to 121 of \<^verbatim>\<open>train\<close>: the rule is stored in \<^verbatim>\<open>merges[i]\<close>, the vocabulary is
  reallocated to \<^verbatim>\<open>idx + 1\<close> pointers, and the new entry receives two bytes, the two ids of
  the pair converted to \<^verbatim>\<open>unsigned char\<close>. (The store into \<^verbatim>\<open>merges[i]\<close> needs the slot
  to exist; the loop below tests that before it calls this function.)
\<close>

definition store_merge :: "BasicTokenizer \<Rightarrow> nat \<Rightarrow> IntPair \<Rightarrow> int \<Rightarrow> BasicTokenizer" where
  "store_merge t i best_pair new_idx =
     t\<lparr>merges := (merges t)[i := Some \<lparr>pair = best_pair, idx = new_idx\<rparr>],
       vocab := (realloc_vocab (vocab t) (nat new_idx + 1))
         [nat new_idx := Some [word_of_int (first best_pair), word_of_int (second best_pair)]]\<rparr>"

text \<open>
  The loop \<^verbatim>\<open>for (i = 0; i < num_merges; ++i)\<close>. It never assigns
  \<^verbatim>\<open>tokenizer->num_merges\<close> or \<^verbatim>\<open>tokenizer->vocab_size\<close>. The function returns the
  tokenizer together with the local sequence \<^verbatim>\<open>ids\<close> as it stands when the loop ends.
\<close>

function train_loop :: "BasicTokenizer \<Rightarrow> int list \<Rightarrow> nat \<Rightarrow> nat \<Rightarrow> fault + BasicTokenizer \<times> int list" where
  "train_loop t ids i n =
     (if i < n then
        (case token_counts ids of
           Inl e \<Rightarrow> Inl e
         | Inr tab \<Rightarrow>
             (case best_loop tab 0 \<lparr>first = 0, second = 0\<rparr> of
                (max_count, best_pair) \<Rightarrow>
                  if max_count = 0 then Inr (t, ids)
                  else
                    (case merge ids best_pair (int INITIAL_VOCAB_SIZE + int i) of
                       Inl e \<Rightarrow> Inl e
                     | Inr ids' \<Rightarrow>
                         if i < length (merges t)
                         then train_loop
                                (store_merge t i best_pair (int INITIAL_VOCAB_SIZE + int i))
                                ids' (i + 1) n
                         else Inl OutOfBounds)))
      else Inr (t, ids))"
  by pat_completeness auto
termination
  by (relation "measure (\<lambda>(t, ids, i, n). n - i)") auto

declare train_loop.simps [simp del]

definition train :: "BasicTokenizer \<Rightarrow> byte list \<Rightarrow> size_t \<Rightarrow> fault + BasicTokenizer" where
  "train t text vsize =
     (let n = vsize - of_nat INITIAL_VOCAB_SIZE
      in case train_loop (t\<lparr>merges := malloc_merges n\<rparr>) (map uint text) 0 (unat n) of
           Inl e \<Rightarrow> Inl e
         | Inr (t', ids') \<Rightarrow> Inr t')"

section \<open>decode\<close>

text \<open>
  One byte per id: \<^verbatim>\<open>text[i] = tokenizer->vocab[ids[i]][0]\<close>. The value is the text
  written before the final NUL.
\<close>

fun decode :: "BasicTokenizer \<Rightarrow> int list \<Rightarrow> fault + byte list" where
  "decode t [] = Inr []"
| "decode t (i # ids) =
     (if 0 \<le> i \<and> nat i < length (vocab t) then
        (case vocab t ! nat i of
           None \<Rightarrow> Inl Uninitialised
         | Some [] \<Rightarrow> Inl OutOfBounds
         | Some (b # bs) \<Rightarrow>
             (case decode t ids of Inl e \<Rightarrow> Inl e | Inr text \<Rightarrow> Inr (b # text)))
      else Inl OutOfBounds)"

text \<open>The bytes a vocabulary entry holds: the expansion the Vocabulary Store has for an id.\<close>

definition expansion :: "BasicTokenizer \<Rightarrow> int \<Rightarrow> byte list" where
  "expansion t i = (case vocab t ! nat i of None \<Rightarrow> [] | Some bs \<Rightarrow> bs)"

definition assigned :: "BasicTokenizer \<Rightarrow> int \<Rightarrow> bool" where
  "assigned t i = (0 \<le> i \<and> nat i < length (vocab t) \<and> vocab t ! nat i \<noteq> None \<and> vocab t ! nat i \<noteq> Some [])"

section \<open>encode\<close>

text \<open>The loop of \<^verbatim>\<open>encode\<close> that looks every counted pair up in the merge table.\<close>

fun rank_loop :: "BasicTokenizer \<Rightarrow> count_entry list \<Rightarrow> IntPair \<Rightarrow> nat \<Rightarrow> nat \<Rightarrow> fault + IntPair \<times> nat \<times> nat" where
  "rank_loop t [] best_pair best_idx min_merge_idx = Inr (best_pair, best_idx, min_merge_idx)"
| "rank_loop t ((f, s, c) # rest) best_pair best_idx min_merge_idx =
     (case find_pair_index (merges t) (num_merges t) \<lparr>first = f, second = s\<rparr> of
        Inl e \<Rightarrow> Inl e
      | Inr k \<Rightarrow>
          if k < num_merges t \<and> k < min_merge_idx
          then rank_loop t rest \<lparr>first = f, second = s\<rparr> k k
          else rank_loop t rest best_pair best_idx min_merge_idx)"

section \<open>The merger refines its specification\<close>


lemma apply_spec_length: "length (apply_spec xs p n) \<le> length xs"
  by (induction xs p n rule: apply_spec.induct) auto

lemma merge_loop_spec:
  "i \<le> length ids \<Longrightarrow> length acc \<le> MAX_TEXT_SIZE \<Longrightarrow>
   merge_loop ids p n i acc =
     (if length acc + length (apply_spec (drop i ids) p n) \<le> MAX_TEXT_SIZE
      then Inr (acc @ apply_spec (drop i ids) p n) else Inl OutOfBounds)"
proof (induction ids p n i acc rule: merge_loop.induct)
  case (1 ids p n i acc)
  show ?case
  proof (cases "i < length ids")
    case False
    with "1.prems" show ?thesis by (simp add: merge_loop.simps)
  next
    case lt: True
    then have d1: "drop i ids = ids ! i # drop (Suc i) ids"
      by (simp add: Cons_nth_drop_Suc)
    show ?thesis
    proof (cases "length acc < MAX_TEXT_SIZE")
      case False
      then have "merge_loop ids p n i acc = Inl OutOfBounds"
        using lt by (subst merge_loop.simps) simp
      moreover have "apply_spec (drop i ids) p n \<noteq> []"
        unfolding d1 by (cases "drop (Suc i) ids") auto
      ultimately show ?thesis using False "1.prems" by simp
    next
      case room: True
      show ?thesis
      proof (cases "ids ! i = first p \<and> i < length ids - 1 \<and> ids ! (i + 1) = second p")
        case True
        then have lt2: "Suc i < length ids" by linarith
        then have d2: "drop (Suc i) ids = ids ! Suc i # drop (Suc (Suc i)) ids"
          by (simp add: Cons_nth_drop_Suc)
        have step: "merge_loop ids p n i acc = merge_loop ids p n (i + 2) (acc @ [n])"
          using lt room True by (subst merge_loop.simps) simp
        have sp: "apply_spec (drop i ids) p n = n # apply_spec (drop (i + 2) ids) p n"
          unfolding d1 d2 using True by simp
        from "1.IH"(1) [OF lt room True] lt2 room
        have "merge_loop ids p n (i + 2) (acc @ [n]) =
            (if length (acc @ [n]) + length (apply_spec (drop (i + 2) ids) p n) \<le> MAX_TEXT_SIZE
             then Inr ((acc @ [n]) @ apply_spec (drop (i + 2) ids) p n) else Inl OutOfBounds)"
          by simp
        then show ?thesis unfolding step sp by simp
      next
        case False
        have step: "merge_loop ids p n i acc = merge_loop ids p n (i + 1) (acc @ [ids ! i])"
          using lt room False by (subst merge_loop.simps) auto
        have sp: "apply_spec (drop i ids) p n = ids ! i # apply_spec (drop (i + 1) ids) p n"
        proof (cases "Suc i < length ids")
          case True
          then have d2: "drop (Suc i) ids = ids ! Suc i # drop (Suc (Suc i)) ids"
            by (simp add: Cons_nth_drop_Suc)
          from True False have "\<not> (ids ! i = first p \<and> ids ! Suc i = second p)" by auto
          then show ?thesis unfolding d1 by (auto simp: d2)
        next
          case False
          then show ?thesis unfolding d1 by simp
        qed
        from "1.IH"(2) [OF lt room False] lt room
        have "merge_loop ids p n (i + 1) (acc @ [ids ! i]) =
            (if length (acc @ [ids ! i]) + length (apply_spec (drop (i + 1) ids) p n) \<le> MAX_TEXT_SIZE
             then Inr ((acc @ [ids ! i]) @ apply_spec (drop (i + 1) ids) p n) else Inl OutOfBounds)"
          by simp
        then show ?thesis unfolding step sp by simp
      qed
    qed
  qed
qed

lemma merge_spec:
  "merge ids p n = (if length (apply_spec ids p n) \<le> MAX_TEXT_SIZE then Inr (apply_spec ids p n) else Inl OutOfBounds)"
  using merge_loop_spec [of 0 ids "[]" p n] by (simp add: merge_def)

section \<open>What the pair counter returns\<close>

text \<open>A pair is adjacent in a sequence when it stands at two consecutive positions.\<close>


definition adjacent :: "int list \<Rightarrow> int \<Rightarrow> int \<Rightarrow> bool" where
  "adjacent ids f s = (\<exists>j. Suc j < length ids \<and> ids ! j = f \<and> ids ! Suc j = s)"

lemma as_merges_length [simp]: "length (as_merges tab) = length tab"
  by (simp add: as_merges_def)

lemma as_merges_nth:
  "k < length tab \<Longrightarrow>
   as_merges tab ! k = Some \<lparr>pair = \<lparr>first = fst (tab ! k), second = fst (snd (tab ! k))\<rparr>, idx = int (snd (snd (tab ! k)))\<rparr>"
  by (simp add: as_merges_def split: prod.splits)

lemma find_loop_table:
  "i \<le> length tab \<Longrightarrow>
   \<exists>k. find_pair_index_loop (as_merges tab) (length tab) p i = Inr k \<and> k \<le> length tab \<and>
       (k < length tab \<longrightarrow> fst (tab ! k) = first p \<and> fst (snd (tab ! k)) = second p)"
proof (induction "length tab - i" arbitrary: i)
  case 0
  then show ?case by (subst find_pair_index_loop.simps) simp
next
  case (Suc d)
  then have lt: "i < length tab" by simp
  show ?case
  proof (cases "fst (tab ! i) = first p \<and> fst (snd (tab ! i)) = second p")
    case True
    with lt show ?thesis
      by (subst find_pair_index_loop.simps) (simp add: as_merges_nth)
  next
    case False
    from Suc have "d = length tab - Suc i" "Suc i \<le> length tab" by simp_all
    from Suc.hyps(1) [OF this] obtain k where
      k: "find_pair_index_loop (as_merges tab) (length tab) p (Suc i) = Inr k" "k \<le> length tab"
         "k < length tab \<longrightarrow> fst (tab ! k) = first p \<and> fst (snd (tab ! k)) = second p"
      by blast
    have "find_pair_index_loop (as_merges tab) (length tab) p i =
          find_pair_index_loop (as_merges tab) (length tab) p (Suc i)"
      using lt False by (subst find_pair_index_loop.simps) (auto simp: as_merges_nth)
    with k show ?thesis by auto
  qed
qed

lemma find_table:
  "\<exists>k. find_pair_index (as_merges tab) (length tab) p = Inr k \<and> k \<le> length tab \<and>
       (k < length tab \<longrightarrow> fst (tab ! k) = first p \<and> fst (snd (tab ! k)) = second p)"
  unfolding find_pair_index_def by (rule find_loop_table) simp

definition tab_ok :: "int list \<Rightarrow> count_entry list \<Rightarrow> bool" where
  "tab_ok ids tab = (\<forall>e \<in> set tab. 1 \<le> snd (snd e) \<and> adjacent ids (fst e) (fst (snd e)))"

lemma tab_ok_append:
  "tab_ok ids tab \<Longrightarrow> Suc i < length ids \<Longrightarrow> tab_ok ids (tab @ [(ids ! i, ids ! Suc i, 1)])"
  by (auto simp: tab_ok_def adjacent_def)

lemma tab_ok_bump:
  assumes "tab_ok ids tab" "k < length tab"
  shows "tab_ok ids (tab[k := bump (tab ! k)])"
proof -
  obtain f s c where e: "tab ! k = (f, s, c)" by (cases "tab ! k")
  from assms have "1 \<le> c \<and> adjacent ids f s"
    unfolding tab_ok_def using e nth_mem [of k tab] by fastforce
  with assms(1) show ?thesis
    unfolding tab_ok_def e by (auto dest!: set_update_subset_insert [THEN subsetD])
qed

lemma token_counts_loop_ok:
  "token_counts_loop ids i tab = Inr tab' \<Longrightarrow> tab_ok ids tab \<Longrightarrow>
   tab_ok ids tab' \<and> length tab \<le> length tab' \<and> (i < length ids - 1 \<longrightarrow> tab' \<noteq> [])"
proof (induction ids i tab rule: token_counts_loop.induct)
  case (1 ids i tab)
  show ?case
  proof (cases "i < length ids - 1")
    case False
    with "1.prems" show ?thesis by (simp add: token_counts_loop.simps)
  next
    case lt: True
    let ?p = "\<lparr>first = ids ! i, second = ids ! (i + 1)\<rparr>"
    from find_table [of tab ?p] obtain k where
      k: "find_pair_index (as_merges tab) (length tab) ?p = Inr k" "k \<le> length tab" by blast
    show ?thesis
    proof (cases "k = length tab")
      case True
      with "1.prems"(1) lt k have room: "length tab < MAX_TEXT_SIZE"
        and run: "token_counts_loop ids (i + 1) (tab @ [(ids ! i, ids ! (i + 1), 1)]) = Inr tab'"
        by (subst (asm) token_counts_loop.simps, simp split: if_splits)+
      from lt have "Suc i < length ids" by linarith
      with "1.prems"(2) have "tab_ok ids (tab @ [(ids ! i, ids ! (i + 1), 1)])"
        using tab_ok_append by simp
      from "1.IH"(1) [OF lt k(1) True room run this] show ?thesis by auto
    next
      case False
      with k have kl: "k < length tab" by simp
      from "1.prems"(1) lt k False
      have run: "token_counts_loop ids (i + 1) (tab[k := bump (tab ! k)]) = Inr tab'"
        by (subst (asm) token_counts_loop.simps) simp
      from "1.IH"(2) [OF lt k(1) False run tab_ok_bump [OF "1.prems"(2) kl]] kl
      show ?thesis by auto
    qed
  qed
qed

lemma token_counts_loop_total:
  "length tab + (length ids - 1 - i) \<le> MAX_TEXT_SIZE \<Longrightarrow>
   \<exists>tab'. token_counts_loop ids i tab = Inr tab'"
proof (induction ids i tab rule: token_counts_loop.induct)
  case (1 ids i tab)
  show ?case
  proof (cases "i < length ids - 1")
    case False
    then show ?thesis by (simp add: token_counts_loop.simps)
  next
    case lt: True
    let ?p = "\<lparr>first = ids ! i, second = ids ! (i + 1)\<rparr>"
    from find_table [of tab ?p] obtain k where
      k: "find_pair_index (as_merges tab) (length tab) ?p = Inr k" "k \<le> length tab" by blast
    show ?thesis
    proof (cases "k = length tab")
      case True
      from lt "1.prems" have room: "length tab < MAX_TEXT_SIZE" by linarith
      from lt "1.prems" have "length (tab @ [(ids ! i, ids ! (i + 1), 1)]) + (length ids - 1 - (i + 1)) \<le> MAX_TEXT_SIZE"
        by simp
      from "1.IH"(1) [OF lt k(1) True room this] obtain tab' where
        "token_counts_loop ids (i + 1) (tab @ [(ids ! i, ids ! (i + 1), 1)]) = Inr tab'" ..
      with lt k True room show ?thesis
        by (subst token_counts_loop.simps) simp
    next
      case False
      from lt "1.prems" have "length (tab[k := bump (tab ! k)]) + (length ids - 1 - (i + 1)) \<le> MAX_TEXT_SIZE"
        by simp
      from "1.IH"(2) [OF lt k(1) False this] obtain tab' where
        "token_counts_loop ids (i + 1) (tab[k := bump (tab ! k)]) = Inr tab'" ..
      with lt k False show ?thesis
        by (subst token_counts_loop.simps) simp
    qed
  qed
qed



lemma token_counts_ok:
  assumes "token_counts ids = Inr tab"
  shows "tab_ok ids tab \<and> (2 \<le> length ids \<longrightarrow> tab \<noteq> [])"
proof -
  from assms have ne: "ids \<noteq> []" and run: "token_counts_loop ids 0 [] = Inr tab"
    by (auto simp: token_counts_def split: if_splits)
  have "tab_ok ids []" by (simp add: tab_ok_def)
  from token_counts_loop_ok [OF run this] show ?thesis by auto
qed

lemma token_counts_total:
  assumes "ids \<noteq> []" "length ids \<le> Suc MAX_TEXT_SIZE"
  shows "\<exists>tab. token_counts ids = Inr tab"
proof -
  from assms have "length ([] :: count_entry list) + (length ids - 1 - 0) \<le> MAX_TEXT_SIZE" by simp
  from token_counts_loop_total [OF this] assms(1) show ?thesis
    by (simp add: token_counts_def)
qed

lemma token_counts_single: "token_counts [a] = Inr []"
  by (simp add: token_counts_def token_counts_loop.simps)

lemma apply_spec_nonempty: "ids \<noteq> [] \<Longrightarrow> apply_spec ids p n \<noteq> []"
  by (induction ids p n rule: apply_spec.induct) auto

lemma apply_spec_adjacent:
  "adjacent ids (first p) (second p) \<Longrightarrow> length (apply_spec ids p n) < length ids"
proof (induction ids p n rule: apply_spec.induct)
  case (1 a b rest p n)
  show ?case
  proof (cases "a = first p \<and> b = second p")
    case True
    then show ?thesis
      using apply_spec_length [of rest p n] by simp
  next
    case False
    from "1.prems" obtain j where
      j: "Suc j < length (a # b # rest)" "(a # b # rest) ! j = first p" "(a # b # rest) ! Suc j = second p"
      unfolding adjacent_def by blast
    with False obtain j' where "j = Suc j'" by (cases j) auto
    with j have "adjacent (b # rest) (first p) (second p)"
      unfolding adjacent_def by auto
    from "1.IH"(2) [OF False this] False show ?thesis by auto
  qed
qed (simp_all add: adjacent_def)

lemma best_loop_cases:
  "best_loop tab m b = (mc, bp) \<Longrightarrow>
   (mc = m \<and> bp = b) \<or> (m < mc \<and> (first bp, second bp, mc) \<in> set tab)"
proof (induction tab m b rule: best_loop.induct)
  case (1 m b)
  then show ?case by simp
next
  case (2 f s c rest m b)
  show ?case
  proof (cases "c > m")
    case True
    with "2.prems" have "best_loop rest c \<lparr>first = f, second = s\<rparr> = (mc, bp)" by simp
    from "2.IH"(1) [OF True this] True show ?thesis by auto
  next
    case False
    with "2.prems" have "best_loop rest m b = (mc, bp)" by simp
    from "2.IH"(2) [OF False this] show ?thesis by auto
  qed
qed

lemma best_loop_mono: "best_loop tab m b = (mc, bp) \<Longrightarrow> \<forall>e \<in> set tab. snd (snd e) \<le> mc"
proof (induction tab m b rule: best_loop.induct)
  case (1 m b)
  then show ?case by simp
next
  case (2 f s c rest m b)
  show ?case
  proof (cases "c > m")
    case True
    with "2.prems" have r: "best_loop rest c \<lparr>first = f, second = s\<rparr> = (mc, bp)" by simp
    from best_loop_cases [OF r] have "c \<le> mc" by auto
    with "2.IH"(1) [OF True r] show ?thesis by auto
  next
    case False
    with "2.prems" have r: "best_loop rest m b = (mc, bp)" by simp
    from best_loop_cases [OF r] have "m \<le> mc" by auto
    with False "2.IH"(2) [OF False r] show ?thesis by auto
  qed
qed

lemma rank_loop_cases:
  "rank_loop t tab bp bi mm = Inr (bp', bi', mm') \<Longrightarrow>
   (bp' = bp \<and> bi' = bi \<and> mm' = mm) \<or> (\<exists>c. (first bp', second bp', c) \<in> set tab)"
proof (induction t tab bp bi mm rule: rank_loop.induct)
  case (1 t bp bi mm)
  then show ?case by simp
next
  case (2 t f s c rest bp bi mm)
  from "2.prems" obtain k where
    k: "find_pair_index (merges t) (num_merges t) \<lparr>first = f, second = s\<rparr> = Inr k"
    by (auto split: sum.splits)
  show ?case
  proof (cases "k < num_merges t \<and> k < mm")
    case True
    with "2.prems" k have "rank_loop t rest \<lparr>first = f, second = s\<rparr> k k = Inr (bp', bi', mm')" by simp
    from "2.IH"(1) [OF k True this] show ?thesis by auto
  next
    case False
    with "2.prems" k have "rank_loop t rest bp bi mm = Inr (bp', bi', mm')" by auto
    from "2.IH"(2) [OF k False this] show ?thesis by auto
  qed
qed

text \<open>A merge chosen by the encoder shortens the sequence, so the loop of \<^verbatim>\<open>encode\<close> ends.\<close>

lemma encode_step_shrinks:
  assumes "token_counts ids = Inr tab"
    and "rank_loop t tab \<lparr>first = - 1, second = - 1\<rparr> 0 SIZE_MAX = Inr (bp, bi, mm)"
    and "first bp \<noteq> - 1"
    and "merge ids bp k = Inr ids'"
  shows "length ids' < length ids"
proof -
  from rank_loop_cases [OF assms(2)] assms(3) obtain c where "(first bp, second bp, c) \<in> set tab"
    by auto
  with token_counts_ok [OF assms(1)] have "adjacent ids (first bp) (second bp)"
    by (auto simp: tab_ok_def)
  from apply_spec_adjacent [OF this, of k] assms(4) show ?thesis
    by (simp add: merge_spec split: if_splits)
qed

text \<open>
  The loop \<^verbatim>\<open>while (*ids_size >= 2)\<close>. \<^verbatim>\<open>best_pair\<close> starts as \<^verbatim>\<open>{-1, -1}\<close>,
  \<^verbatim>\<open>min_merge_idx\<close> as \<^verbatim>\<open>SIZE_MAX\<close>; the merge reads \<^verbatim>\<open>tokenizer->merges[best_idx].idx\<close>.
\<close>

function encode_loop :: "BasicTokenizer \<Rightarrow> int list \<Rightarrow> fault + int list" where
  "encode_loop t ids =
     (if 2 \<le> length ids then
        (case token_counts ids of
           Inl e \<Rightarrow> Inl e
         | Inr tab \<Rightarrow>
             (case rank_loop t tab \<lparr>first = - 1, second = - 1\<rparr> 0 SIZE_MAX of
                Inl e \<Rightarrow> Inl e
              | Inr (best_pair, best_idx, min_merge_idx) \<Rightarrow>
                  if first best_pair = - 1 then Inr ids
                  else if best_idx < length (merges t) then
                    (case merges t ! best_idx of
                       None \<Rightarrow> Inl Uninitialised
                     | Some m \<Rightarrow>
                         (case merge ids best_pair (idx m) of
                            Inl e \<Rightarrow> Inl e
                          | Inr ids' \<Rightarrow> encode_loop t ids'))
                  else Inl OutOfBounds))
      else Inr ids)"
  by pat_completeness auto
termination
proof (relation "measure (\<lambda>(t, ids). length ids)")
  show "wf (measure (\<lambda>(t, ids). length ids))" by simp
next
  fix t :: BasicTokenizer and m :: Merge and ids tab x best_pair y best_idx min_merge_idx ids'
  assume "token_counts ids = Inr tab"
    and "rank_loop t tab \<lparr>first = - 1, second = - 1\<rparr> 0 SIZE_MAX = Inr x"
    and "(best_pair, y) = x" and "(best_idx, min_merge_idx) = y"
    and "first best_pair \<noteq> - 1" and "merge ids best_pair (idx m) = Inr ids'"
  then show "((t, ids'), (t, ids)) \<in> measure (\<lambda>(t, ids). length ids)"
    using encode_step_shrinks [of ids tab t best_pair best_idx min_merge_idx "idx m" ids'] by auto
qed

declare encode_loop.simps [simp del]

definition encode :: "BasicTokenizer \<Rightarrow> byte list \<Rightarrow> fault + int list" where
  "encode t text = encode_loop t (map uint text)"

section \<open>The pair the encoder chooses\<close>

text \<open>
  The lookup loop of \<^verbatim>\<open>encode\<close> either keeps its initial state or ends on a counted pair
  with its index in the first \<^verbatim>\<open>num_merges\<close> slots of \<^verbatim>\<open>merges\<close>, and no counted pair has a
  smaller index there. What the loop can find is bounded by \<^verbatim>\<open>num_merges\<close>.
\<close>

lemma rank_loop_result:
  "rank_loop t tab bp bi mm = Inr (bp', bi', mm') \<Longrightarrow>
   (bp' = bp \<and> bi' = bi \<and> mm' = mm) \<or>
   (mm' < mm \<and> bi' = mm' \<and> mm' < num_merges t \<and>
    find_pair_index (merges t) (num_merges t) bp' = Inr mm' \<and>
    (\<exists>c. (first bp', second bp', c) \<in> set tab))"
proof (induction t tab bp bi mm rule: rank_loop.induct)
  case (1 t bp bi mm)
  then show ?case by simp
next
  case (2 t f s c rest bp bi mm)
  let ?p = "\<lparr>first = f, second = s\<rparr>"
  from "2.prems" obtain k where
    k: "find_pair_index (merges t) (num_merges t) ?p = Inr k"
    by (auto split: sum.splits)
  show ?case
  proof (cases "k < num_merges t \<and> k < mm")
    case True
    with "2.prems" k have run: "rank_loop t rest ?p k k = Inr (bp', bi', mm')" by simp
    from "2.IH"(1) [OF k True run] show ?thesis
    proof
      assume "bp' = ?p \<and> bi' = k \<and> mm' = k"
      with True k have "mm' < mm \<and> bi' = mm' \<and> mm' < num_merges t \<and>
        find_pair_index (merges t) (num_merges t) bp' = Inr mm' \<and>
        (first bp', second bp', c) \<in> set ((f, s, c) # rest)" by simp
      then show ?thesis by blast
    next
      assume a: "mm' < k \<and> bi' = mm' \<and> mm' < num_merges t \<and>
        find_pair_index (merges t) (num_merges t) bp' = Inr mm' \<and>
        (\<exists>c. (first bp', second bp', c) \<in> set rest)"
      then obtain c' where "(first bp', second bp', c') \<in> set ((f, s, c) # rest)" by auto
      with a True have "mm' < mm \<and> bi' = mm' \<and> mm' < num_merges t \<and>
        find_pair_index (merges t) (num_merges t) bp' = Inr mm' \<and>
        (\<exists>c'. (first bp', second bp', c') \<in> set ((f, s, c) # rest))" by auto
      then show ?thesis by blast
    qed
  next
    case False
    with "2.prems" k have run: "rank_loop t rest bp bi mm = Inr (bp', bi', mm')" by auto
    from "2.IH"(2) [OF k False run] show ?thesis
    proof
      assume "bp' = bp \<and> bi' = bi \<and> mm' = mm"
      then show ?thesis by blast
    next
      assume a: "mm' < mm \<and> bi' = mm' \<and> mm' < num_merges t \<and>
        find_pair_index (merges t) (num_merges t) bp' = Inr mm' \<and>
        (\<exists>c. (first bp', second bp', c) \<in> set rest)"
      then obtain c' where "(first bp', second bp', c') \<in> set ((f, s, c) # rest)" by auto
      with a show ?thesis by blast
    qed
  qed
qed

lemma rank_loop_least:
  "rank_loop t tab bp bi mm = Inr (bp', bi', mm') \<Longrightarrow> (f, s, c) \<in> set tab \<Longrightarrow>
   find_pair_index (merges t) (num_merges t) \<lparr>first = f, second = s\<rparr> = Inr k \<Longrightarrow>
   k < num_merges t \<Longrightarrow> mm' \<le> k"
proof (induction t tab bp bi mm rule: rank_loop.induct)
  case (1 t bp bi mm)
  then show ?case by simp
next
  case (2 t f0 s0 c0 rest bp bi mm)
  let ?p = "\<lparr>first = f0, second = s0\<rparr>"
  from "2.prems"(1) obtain k0 where
    k0: "find_pair_index (merges t) (num_merges t) ?p = Inr k0"
    by (auto split: sum.splits)
  show ?case
  proof (cases "k0 < num_merges t \<and> k0 < mm")
    case True
    with "2.prems"(1) k0 have run: "rank_loop t rest ?p k0 k0 = Inr (bp', bi', mm')" by simp
    show ?thesis
    proof (cases "(f, s, c) \<in> set rest")
      case True
      from "2.IH"(1) [OF k0 \<open>k0 < num_merges t \<and> k0 < mm\<close> run True "2.prems"(3,4)]
      show ?thesis .
    next
      case False
      with "2.prems"(2) have "f = f0" "s = s0" by simp_all
      with "2.prems"(3) k0 have "k = k0" by simp
      moreover from rank_loop_result [OF run] have "mm' \<le> k0" by auto
      ultimately show ?thesis by simp
    qed
  next
    case False
    with "2.prems"(1) k0 have run: "rank_loop t rest bp bi mm = Inr (bp', bi', mm')" by auto
    show ?thesis
    proof (cases "(f, s, c) \<in> set rest")
      case True
      from "2.IH"(2) [OF k0 \<open>\<not> (k0 < num_merges t \<and> k0 < mm)\<close> run True "2.prems"(3,4)]
      show ?thesis .
    next
      case notin: False
      with "2.prems"(2) have "f = f0" "s = s0" by simp_all
      with "2.prems"(3) k0 have "k = k0" by simp
      with False "2.prems"(4) have "mm \<le> k" by simp
      moreover from rank_loop_result [OF run] have "mm' \<le> mm" by auto
      ultimately show ?thesis by simp
    qed
  qed
qed

section \<open>What training keeps and when it returns\<close>


lemma create_vocab_length: "length (vocab create_tokenizer) = 256"
  by (simp add: create_tokenizer_def INITIAL_VOCAB_SIZE_def)

lemma create_vocab_nth: "i < 256 \<Longrightarrow> vocab create_tokenizer ! i = Some [of_nat i]"
  by (simp add: create_tokenizer_def INITIAL_VOCAB_SIZE_def)

lemma create_fields:
  "merges create_tokenizer = []" "num_merges create_tokenizer = 0" "vocab_size create_tokenizer = 256"
  by (simp_all add: create_tokenizer_def INITIAL_VOCAB_SIZE_def)

lemma store_merge_fields:
  "num_merges (store_merge t i bp k) = num_merges t"
  "vocab_size (store_merge t i bp k) = vocab_size t"
  "length (merges (store_merge t i bp k)) = length (merges t)"
  by (simp_all add: store_merge_def)

lemma store_merge_vocab:
  assumes "256 \<le> length (vocab t)" "256 \<le> k"
  shows "256 \<le> length (vocab (store_merge t i bp k))"
    and "take 256 (vocab (store_merge t i bp k)) = take 256 (vocab t)"
proof -
  from assms show "256 \<le> length (vocab (store_merge t i bp k))"
    by (simp add: store_merge_def realloc_vocab_def)
  from assms have "take 256 (vocab (store_merge t i bp k)) = take 256 (realloc_vocab (vocab t) (nat k + 1))"
    by (simp add: store_merge_def)
  also from assms have "\<dots> = take 256 (vocab t)"
    by (simp add: realloc_vocab_def min_def)
  finally show "take 256 (vocab (store_merge t i bp k)) = take 256 (vocab t)" .
qed

text \<open>One iteration of the training loop, read off its defining equation.\<close>

lemma train_loop_stop:
  "i < n \<Longrightarrow> token_counts ids = Inr tab \<Longrightarrow> fst (best_loop tab 0 \<lparr>first = 0, second = 0\<rparr>) = 0 \<Longrightarrow>
   train_loop t ids i n = Inr (t, ids)"
  by (subst train_loop.simps) (auto split: prod.splits)

lemma train_loop_exit: "\<not> i < n \<Longrightarrow> train_loop t ids i n = Inr (t, ids)"
  by (subst train_loop.simps) simp

lemma train_loop_step:
  "i < n \<Longrightarrow> token_counts ids = Inr tab \<Longrightarrow> best_loop tab 0 \<lparr>first = 0, second = 0\<rparr> = (mc, bp) \<Longrightarrow>
   mc \<noteq> 0 \<Longrightarrow> merge ids bp (int INITIAL_VOCAB_SIZE + int i) = Inr ids' \<Longrightarrow> i < length (merges t) \<Longrightarrow>
   train_loop t ids i n = train_loop (store_merge t i bp (int INITIAL_VOCAB_SIZE + int i)) ids' (i + 1) n"
  by (subst train_loop.simps) simp

lemma train_loop_Inr_cases:
  assumes "train_loop t ids i n = Inr r" "i < n"
  obtains tab bp where "token_counts ids = Inr tab" "best_loop tab 0 \<lparr>first = 0, second = 0\<rparr> = (0, bp)" "r = (t, ids)"
  | tab mc bp ids' where "token_counts ids = Inr tab" "best_loop tab 0 \<lparr>first = 0, second = 0\<rparr> = (mc, bp)"
      "mc \<noteq> 0" "merge ids bp (int INITIAL_VOCAB_SIZE + int i) = Inr ids'" "i < length (merges t)"
      "train_loop (store_merge t i bp (int INITIAL_VOCAB_SIZE + int i)) ids' (i + 1) n = Inr r"
  using assms
  by (subst (asm) train_loop.simps) (auto split: sum.splits prod.splits if_splits)

lemma train_loop_keeps:
  "train_loop t ids i n = Inr (t', ids') \<Longrightarrow>
   num_merges t' = num_merges t \<and> vocab_size t' = vocab_size t \<and>
   (256 \<le> length (vocab t) \<longrightarrow> 256 \<le> length (vocab t') \<and> take 256 (vocab t') = take 256 (vocab t))"
proof (induction "n - i" arbitrary: t ids i)
  case 0
  then show ?case by (simp add: train_loop_exit)
next
  case (Suc d)
  then have lt: "i < n" by simp
  from Suc.prems lt show ?case
  proof (cases rule: train_loop_Inr_cases)
    case (1 tab bp)
    then show ?thesis by simp
  next
    case (2 tab mc bp ids2)
    let ?t = "store_merge t i bp (int INITIAL_VOCAB_SIZE + int i)"
    from Suc.hyps(2) have "d = n - (i + 1)" by simp
    from Suc.hyps(1) [OF this 2(6)]
    have "num_merges t' = num_merges ?t \<and> vocab_size t' = vocab_size ?t \<and>
      (256 \<le> length (vocab ?t) \<longrightarrow> 256 \<le> length (vocab t') \<and> take 256 (vocab t') = take 256 (vocab ?t))" .
    moreover have "256 \<le> int INITIAL_VOCAB_SIZE + int i" by (simp add: INITIAL_VOCAB_SIZE_def)
    ultimately show ?thesis
      using store_merge_vocab [of t "int INITIAL_VOCAB_SIZE + int i" i bp]
      by (auto simp: store_merge_fields)
  qed
qed

lemma best_loop_positive:
  assumes "tab_ok ids tab" "tab \<noteq> []" "best_loop tab 0 b = (mc, bp)"
  shows "0 < mc \<and> adjacent ids (first bp) (second bp)"
proof -
  from assms(2) obtain e where e: "e \<in> set tab" by (cases tab) auto
  with assms(1) have "1 \<le> snd (snd e)" by (simp add: tab_ok_def)
  with best_loop_mono [OF assms(3)] e have pos: "0 < mc" by fastforce
  with best_loop_cases [OF assms(3)] have "(first bp, second bp, mc) \<in> set tab" by auto
  with assms(1) pos show ?thesis by (auto simp: tab_ok_def)
qed

lemma train_loop_total:
  "ids \<noteq> [] \<Longrightarrow> length ids \<le> MAX_TEXT_SIZE \<Longrightarrow> n \<le> length (merges t) \<Longrightarrow>
   \<exists>r. train_loop t ids i n = Inr r"
proof (induction "n - i" arbitrary: t ids i)
  case 0
  then show ?case by (simp add: train_loop_exit)
next
  case (Suc d)
  then have lt: "i < n" by simp
  from token_counts_total [of ids] Suc.prems obtain tab where tab: "token_counts ids = Inr tab"
    by auto
  obtain mc bp where best: "best_loop tab 0 \<lparr>first = 0, second = 0\<rparr> = (mc, bp)"
    by (cases "best_loop tab 0 \<lparr>first = 0, second = 0\<rparr>")
  show ?case
  proof (cases "mc = 0")
    case True
    with train_loop_stop [OF lt tab, of t] best show ?thesis by simp
  next
    case False
    let ?k = "int INITIAL_VOCAB_SIZE + int i"
    let ?ids = "apply_spec ids bp ?k"
    from apply_spec_length [of ids bp ?k] Suc.prems(2)
    have len: "length ?ids \<le> MAX_TEXT_SIZE" by simp
    then have m: "merge ids bp ?k = Inr ?ids" by (simp add: merge_spec)
    from lt Suc.prems(3) have slot: "i < length (merges t)" by simp
    from Suc.hyps(2) have d: "d = n - (i + 1)" by simp
    from Suc.prems(3) have "n \<le> length (merges (store_merge t i bp ?k))"
      by (simp add: store_merge_fields)
    from Suc.hyps(1) [OF d apply_spec_nonempty [OF Suc.prems(1)] len this]
    obtain r where "train_loop (store_merge t i bp ?k) ?ids (i + 1) n = Inr r" ..
    with train_loop_step [OF lt tab best False m slot] lt show ?thesis by simp
  qed
qed

section \<open>Tokenizers on which training has completed\<close>

text \<open>
  The only operations that build a tokenizer are \<^verbatim>\<open>create_tokenizer\<close> and \<^verbatim>\<open>train\<close>:
  a tokenizer on which training has completed is what one or more calls of \<^verbatim>\<open>train\<close> that
  returned have made of a fresh one. \<open>roundtrip\<close> is \<^verbatim>\<open>decode\<close> applied to the result of
  \<^verbatim>\<open>encode\<close>, as \<^verbatim>\<open>main\<close> chains them.
\<close>

inductive trained :: "BasicTokenizer \<Rightarrow> bool" where
  first_training: "train create_tokenizer text vsize = Inr t \<Longrightarrow> trained t"
| next_training: "trained t \<Longrightarrow> train t text vsize = Inr t' \<Longrightarrow> trained t'"

definition roundtrip :: "BasicTokenizer \<Rightarrow> byte list \<Rightarrow> fault + byte list" where
  "roundtrip t text = (case encode t text of Inl e \<Rightarrow> Inl e | Inr ids \<Rightarrow> decode t ids)"

lemma train_keeps:
  assumes "train t text vsize = Inr t'"
  shows "num_merges t' = num_merges t" "vocab_size t' = vocab_size t"
    "256 \<le> length (vocab t) \<Longrightarrow> 256 \<le> length (vocab t') \<and> take 256 (vocab t') = take 256 (vocab t)"
proof -
  let ?n = "vsize - of_nat INITIAL_VOCAB_SIZE"
  let ?t = "t\<lparr>merges := malloc_merges ?n\<rparr>"
  from assms obtain ids' where run: "train_loop ?t (map uint text) 0 (unat ?n) = Inr (t', ids')"
    by (auto simp: train_def Let_def split: sum.splits)
  from train_loop_keeps [OF run]
  show "num_merges t' = num_merges t" "vocab_size t' = vocab_size t"
    "256 \<le> length (vocab t) \<Longrightarrow> 256 \<le> length (vocab t') \<and> take 256 (vocab t') = take 256 (vocab t)"
    by simp_all
qed

lemma trained_inv:
  "trained t \<Longrightarrow> num_merges t = 0 \<and> 256 \<le> length (vocab t) \<and> take 256 (vocab t) = vocab create_tokenizer"
proof (induction rule: trained.induct)
  case (first_training bs vsize t)
  from train_keeps [OF this] show ?case
    by (simp add: create_fields create_vocab_length)
next
  case (next_training t bs vsize t')
  from train_keeps [OF next_training.hyps(2)] next_training.IH show ?case by simp
qed

lemma find_pair_index_empty: "find_pair_index ms 0 p = Inr 0"
  by (simp add: find_pair_index_def find_pair_index_loop.simps)

lemma rank_loop_no_rules:
  "num_merges t = 0 \<Longrightarrow> rank_loop t tab bp bi mm = Inr (bp, bi, mm)"
  by (induction tab) (auto simp: find_pair_index_empty)

lemma encode_no_rules:
  assumes "num_merges t = 0" "length text \<le> MAX_TEXT_SIZE"
  shows "encode t text = Inr (map uint text)"
proof (cases "2 \<le> length text")
  case False
  then show ?thesis by (simp add: encode_def encode_loop.simps)
next
  case True
  with assms(2) have "map uint text \<noteq> []" "length (map uint text) \<le> Suc MAX_TEXT_SIZE" by auto
  from token_counts_total [OF this] obtain tab where "token_counts (map uint text) = Inr tab" ..
  with True assms(1) show ?thesis
    by (simp add: encode_def encode_loop.simps rank_loop_no_rules)
qed

lemma decode_bytes:
  assumes "256 \<le> length (vocab t)" "take 256 (vocab t) = vocab create_tokenizer"
  shows "decode t (map uint bs) = Inr bs"
proof (induction bs)
  case Nil
  show ?case by simp
next
  case (Cons b bs)
  have "unat b < 2 ^ LENGTH(8)" by (rule unsigned_less)
  then have lt: "unat b < 256" by simp
  then have "vocab t ! unat b = take 256 (vocab t) ! unat b" by simp
  also have "\<dots> = Some [b]" using lt by (simp add: assms(2) create_vocab_nth)
  finally have "vocab t ! unat b = Some [b]" .
  with Cons lt assms(1) show ?case by simp
qed

section \<open>Runs on concrete texts\<close>

text \<open>
  The text \<^verbatim>\<open>"aaab"\<close> and the tokenizers that training leaves for it with targets 257
  and 258, and for \<^verbatim>\<open>"ab"\<close> with target 257.
\<close>

definition aaab :: "byte list" where
  "aaab = [97, 97, 97, 98]"

definition rule_256 :: Merge where
  "rule_256 = \<lparr>pair = \<lparr>first = 97, second = 97\<rparr>, idx = 256\<rparr>"

definition rule_257 :: Merge where
  "rule_257 = \<lparr>pair = \<lparr>first = 256, second = 97\<rparr>, idx = 257\<rparr>"

definition trained_aaab :: BasicTokenizer where
  "trained_aaab =
     create_tokenizer\<lparr>merges := [Some rule_256], vocab := vocab create_tokenizer @ [Some [97, 97]]\<rparr>"

definition trained_aaab_258 :: BasicTokenizer where
  "trained_aaab_258 =
     create_tokenizer\<lparr>merges := [Some rule_256, Some rule_257],
                       vocab := vocab create_tokenizer @ [Some [97, 97], Some [0, 97]]\<rparr>"

definition trained_ab :: BasicTokenizer where
  "trained_ab =
     create_tokenizer\<lparr>merges := [Some \<lparr>pair = \<lparr>first = 97, second = 98\<rparr>, idx = 256\<rparr>],
                       vocab := vocab create_tokenizer @ [Some [97, 98]]\<rparr>"

lemmas eval_counts = token_counts_def token_counts_loop.simps find_pair_index_def
  find_pair_index_loop.simps as_merges_def MAX_TEXT_SIZE_def

lemma counts_aaab: "token_counts [97, 97, 97, 98] = Inr [(97, 97, 2), (97, 98, 1)]"
  by (simp add: eval_counts)

lemma counts_after_first: "token_counts [256, 97, 98] = Inr [(256, 97, 1), (97, 98, 1)]"
  by (simp add: eval_counts)

lemma counts_ab: "token_counts [97, 98] = Inr [(97, 98, 1)]"
  by (simp add: eval_counts)

lemma malloc_merges_0: "malloc_merges 0 = []"
  by (simp add: malloc_merges_def)

lemma malloc_merges_1: "malloc_merges 1 = [None]"
  by (simp add: malloc_merges_def PTRDIFF_MAX_def)

lemma malloc_merges_2: "malloc_merges 2 = [None, None]"
proof -
  have "malloc_merges 2 = replicate 2 None"
    by (simp add: malloc_merges_def PTRDIFF_MAX_def)
  also have "\<dots> = [None, None]"
    by (simp add: numeral_2_eq_2)
  finally show ?thesis .
qed

lemmas eval_train = train_loop.simps merge_spec MAX_TEXT_SIZE_def INITIAL_VOCAB_SIZE_def
  realloc_vocab_def store_merge_def create_vocab_length list_update_append

lemma loop_aaab:
  "train_loop (create_tokenizer\<lparr>merges := [None]\<rparr>) [97, 97, 97, 98] 0 1 =
     Inr (trained_aaab, [256, 97, 98])"
  by (simp add: eval_train counts_aaab trained_aaab_def rule_256_def)

lemma train_aaab: "train create_tokenizer aaab 257 = Inr trained_aaab"
  by (simp add: train_def INITIAL_VOCAB_SIZE_def malloc_merges_1 aaab_def
      loop_aaab [unfolded One_nat_def])

lemma loop_aaab_258:
  "train_loop (create_tokenizer\<lparr>merges := [None, None]\<rparr>) [97, 97, 97, 98] 0 2 =
     Inr (trained_aaab_258, [257, 98])"
  by (simp add: eval_train counts_aaab counts_after_first trained_aaab_258_def
      rule_256_def rule_257_def)

lemma train_aaab_258: "train create_tokenizer aaab 258 = Inr trained_aaab_258"
  by (simp add: train_def INITIAL_VOCAB_SIZE_def malloc_merges_2 aaab_def loop_aaab_258)

lemma loop_ab:
  "train_loop (create_tokenizer\<lparr>merges := [None]\<rparr>) [97, 98] 0 1 = Inr (trained_ab, [256])"
  by (simp add: eval_train counts_ab trained_ab_def)

lemma train_ab: "train create_tokenizer [97, 98] 257 = Inr trained_ab"
  by (simp add: train_def INITIAL_VOCAB_SIZE_def malloc_merges_1 loop_ab [unfolded One_nat_def])

lemma trained_aaab_fields:
  "merges trained_aaab = [Some rule_256]" "num_merges trained_aaab = 0"
  "vocab trained_aaab = vocab create_tokenizer @ [Some [97, 97]]"
  by (simp_all add: trained_aaab_def create_fields)

lemma encode_aaab: "encode trained_aaab aaab = Inr [97, 97, 97, 98]"
  by (simp add: encode_def encode_loop.simps counts_aaab trained_aaab_fields aaab_def
      find_pair_index_def find_pair_index_loop.simps)

lemma decode_aaab: "decode trained_aaab [256, 97, 98] = Inr [97, 97, 98]"
  by (simp add: trained_aaab_fields create_vocab_length create_vocab_nth nth_append)

lemma expansion_aaab:
  "expansion trained_aaab 256 = [97, 97]" "expansion trained_aaab 97 = [97]"
  "expansion trained_aaab 98 = [98]"
  by (simp_all add: expansion_def trained_aaab_fields create_vocab_length create_vocab_nth nth_append)

lemma assigned_aaab:
  "assigned trained_aaab 256" "assigned trained_aaab 97" "assigned trained_aaab 98"
  by (simp_all add: assigned_def trained_aaab_fields create_vocab_length create_vocab_nth nth_append)

text \<open>With the count of rules stored, the same encoder applies the rule.\<close>

lemma encode_aaab_with_count:
  "encode (trained_aaab\<lparr>num_merges := 1\<rparr>) aaab = Inr [256, 97, 98]"
  by (simp add: encode_def encode_loop.simps counts_aaab counts_after_first trained_aaab_fields
      aaab_def find_pair_index_def find_pair_index_loop.simps SIZE_MAX_def rule_256_def
      merge_spec MAX_TEXT_SIZE_def)

section \<open>Sizes without a check, ids without a check\<close>

lemma malloc_merges_unwritten: "Some m \<notin> set (malloc_merges k)"
  by (simp add: malloc_merges_def Let_def)

lemma train_single_byte:
  "train t [b] vsize = Inr (t\<lparr>merges := malloc_merges (vsize - of_nat INITIAL_VOCAB_SIZE)\<rparr>)"
proof -
  let ?n = "vsize - of_nat INITIAL_VOCAB_SIZE"
  have "train_loop (t\<lparr>merges := malloc_merges ?n\<rparr>) [uint b] 0 (unat ?n) =
        Inr (t\<lparr>merges := malloc_merges ?n\<rparr>, [uint b])"
  proof (cases "0 < unat ?n")
    case True
    from train_loop_stop [OF True token_counts_single] show ?thesis by simp
  next
    case False
    then show ?thesis by (rule train_loop_exit)
  qed
  then show ?thesis by (simp add: train_def Let_def)
qed

lemma train_256: "train t bs 256 = Inr (t\<lparr>merges := []\<rparr>)"
  by (simp add: train_def INITIAL_VOCAB_SIZE_def malloc_merges_0 train_loop_exit)

lemma malloc_merges_fits:
  assumes "unat n \<le> PTRDIFF_MAX div 12"
  shows "malloc_merges n = replicate (unat n) None"
proof -
  from assms have le: "unat n * 12 \<le> PTRDIFF_MAX" by simp
  then have "unat n * unat (12 :: size_t) < 2 ^ LENGTH(32)"
    by (simp add: PTRDIFF_MAX_def)
  then have "unat (n * 12) = unat n * unat (12 :: size_t)"
    by (simp only: unat_mult_lem)
  then have "unat (n * 12) = unat n * 12" by simp
  with le show ?thesis by (simp add: malloc_merges_def)
qed

lemma train_total:
  assumes "257 \<le> vsize" "unat vsize \<le> 256 + PTRDIFF_MAX div 12"
    and "bs \<noteq> []" "length bs \<le> MAX_TEXT_SIZE"
  shows "\<exists>t'. train t bs vsize = Inr t'"
proof -
  let ?n = "vsize - of_nat INITIAL_VOCAB_SIZE"
  from assms(1) have "(256 :: size_t) \<le> vsize" by (simp add: word_le_nat_alt)
  then have "unat (vsize - 256) = unat vsize - unat (256 :: size_t)" by (rule unat_sub)
  with assms(2) have n: "unat ?n \<le> PTRDIFF_MAX div 12"
    by (simp add: INITIAL_VOCAB_SIZE_def)
  have "unat ?n \<le> length (merges (t\<lparr>merges := malloc_merges ?n\<rparr>))"
    by (simp add: malloc_merges_fits [OF n])
  from train_loop_total [OF _ _ this, of "map uint bs" 0] assms(3,4)
  obtain r where "train_loop (t\<lparr>merges := malloc_merges ?n\<rparr>) (map uint bs) 0 (unat ?n) = Inr r"
    by auto
  then show ?thesis by (cases r) (simp add: train_def Let_def)
qed

text \<open>Below 256 the subtraction wraps, the allocation request cannot be met, and the first store faults.\<close>

lemma train_255_faults: "train create_tokenizer aaab 255 = Inl OutOfBounds"
proof -
  have m: "malloc_merges (255 - 256) = []"
    by (simp add: malloc_merges_def PTRDIFF_MAX_def)
  have "0 < unat (- 1 :: size_t)"
    by (simp add: unsigned_minus_1_eq_mask mask_eq_exp_minus_1)
  then have "train_loop (create_tokenizer\<lparr>merges := []\<rparr>) [97, 97, 97, 98] 0 (unat (255 - 256 :: size_t)) = Inl OutOfBounds"
    by (subst train_loop.simps) (simp add: counts_aaab merge_spec MAX_TEXT_SIZE_def)
  with m show ?thesis by (simp add: train_def INITIAL_VOCAB_SIZE_def aaab_def)
qed

lemma decode_assigned:
  "list_all (assigned t) ids \<Longrightarrow> \<exists>bs. decode t ids = Inr bs"
proof (induction ids)
  case Nil
  show ?case by simp
next
  case (Cons i ids)
  then have a: "assigned t i" and rest: "\<exists>bs. decode t ids = Inr bs" by simp_all
  from a obtain b bs where e: "vocab t ! nat i = Some (b # bs)"
    unfolding assigned_def by (cases "vocab t ! nat i"; cases "the (vocab t ! nat i)") auto
  from rest obtain out where "decode t ids = Inr out" ..
  with a e show ?case by (simp add: assigned_def)
qed

lemma decode_unassigned:
  "\<not> list_all (assigned t) ids \<Longrightarrow> \<exists>e. decode t ids = Inl e"
proof (induction ids)
  case Nil
  then show ?case by simp
next
  case (Cons i ids)
  show ?case
  proof (cases "assigned t i")
    case False
    then show ?thesis
      by (auto simp: assigned_def split: option.splits list.splits)
  next
    case True
    with Cons obtain e where "decode t ids = Inl e" by auto
    then show ?thesis by (auto split: option.splits list.splits)
  qed
qed

section \<open>The claims\<close>

text \<open>
  C1. For every tokenizer on which training has completed and every text of at most
  \<^verbatim>\<open>MAX_TEXT_SIZE\<close> bytes (whatever its bytes, so in particular the bytes of the training
  input), decoding the result of encoding the text yields the text. In this code the reason
  is that \<^verbatim>\<open>train\<close> leaves \<^verbatim>\<open>num_merges\<close> at 0: the encoder finds no rule and returns one
  id per byte, and the decoder returns the single byte of each of these ids.
\<close>

theorem roundtrip_trained:
  "trained t \<Longrightarrow> length text \<le> MAX_TEXT_SIZE \<Longrightarrow> roundtrip t text = Inr text"
proof -
  assume tr: "trained t" and cap: "length text \<le> MAX_TEXT_SIZE"
  from trained_inv [OF tr] have inv: "num_merges t = 0" "256 \<le> length (vocab t)"
    "take 256 (vocab t) = vocab create_tokenizer" by simp_all
  from encode_no_rules [OF inv(1) cap] decode_bytes [OF inv(2,3)]
  show "roundtrip t text = Inr text" by (simp add: roundtrip_def)
qed

theorem roundtrip_trained_witness:
  "trained trained_aaab \<and> length aaab \<le> MAX_TEXT_SIZE \<and> roundtrip trained_aaab aaab = Inr aaab"
proof -
  have tr: "trained trained_aaab" by (rule first_training [OF train_aaab])
  have cap: "length aaab \<le> MAX_TEXT_SIZE" by (simp add: aaab_def MAX_TEXT_SIZE_def)
  from roundtrip_trained [OF tr cap] tr cap show ?thesis by simp
qed

text \<open>
  C2. The scenario \<^verbatim>\<open>"aaab"\<close> with target 257, evaluated. Training does what the claim
  says: one merge, the rule \<open>(97,97) \<rightarrow> 256\<close>, the sequence \<open>[256,97,98]\<close>. Afterwards
  \<^verbatim>\<open>encode("aaab")\<close> returns \<open>[97,97,97,98]\<close>, not \<open>[256,97,98]\<close>, because
  \<^verbatim>\<open>num_merges\<close> is still 0; and \<^verbatim>\<open>decode([256,97,98])\<close> returns \<^verbatim>\<open>"aab"\<close>, not
  \<^verbatim>\<open>"aaab"\<close>, because one byte is written per id.
\<close>

theorem scenario_aaab:
  "train create_tokenizer aaab 257 = Inr trained_aaab \<and>
   train_loop (create_tokenizer\<lparr>merges := malloc_merges 1\<rparr>) (map uint aaab) 0 1 =
     Inr (trained_aaab, [256, 97, 98]) \<and>
   merges trained_aaab = [Some \<lparr>pair = \<lparr>first = 97, second = 97\<rparr>, idx = 256\<rparr>] \<and>
   num_merges trained_aaab = 0 \<and>
   encode trained_aaab aaab = Inr [97, 97, 97, 98] \<and>
   decode trained_aaab [256, 97, 98] = Inr [97, 97, 98]"
proof -
  have "train_loop (create_tokenizer\<lparr>merges := malloc_merges 1\<rparr>) (map uint aaab) 0 1 =
     Inr (trained_aaab, [256, 97, 98])"
    using loop_aaab by (simp add: malloc_merges_1 aaab_def)
  moreover have "merges trained_aaab = [Some \<lparr>pair = \<lparr>first = 97, second = 97\<rparr>, idx = 256\<rparr>]"
    by (simp add: trained_aaab_fields rule_256_def)
  ultimately show ?thesis
    using train_aaab encode_aaab decode_aaab trained_aaab_fields(2) by simp
qed

text \<open>
  C3. The claim is that \<^verbatim>\<open>decode\<close> yields the concatenation of the whole entries of the
  ids. Evaluated on the tokenizer trained on \<^verbatim>\<open>"aaab"\<close>: the three ids are assigned, their
  entries concatenate to \<^verbatim>\<open>"aaab"\<close>, and \<^verbatim>\<open>decode\<close> returns \<^verbatim>\<open>"aab"\<close>, the first byte
  of each entry.
\<close>

theorem decode_first_byte_only:
  "train create_tokenizer aaab 257 = Inr trained_aaab \<and>
   list_all (assigned trained_aaab) [256, 97, 98] \<and>
   concat (map (expansion trained_aaab) [256, 97, 98]) = aaab \<and>
   decode trained_aaab [256, 97, 98] = Inr [97, 97, 98]"
  using train_aaab decode_aaab by (simp add: expansion_aaab assigned_aaab aaab_def)

text \<open>
  C4. The claim is that the encoder applies the lowest-ranked rule whose pair is present
  and stops only when no present pair has a rank. Evaluated on the tokenizer trained on
  \<^verbatim>\<open>"aaab"\<close>: the rule for \<open>(97,97)\<close> stands in slot 0 of \<^verbatim>\<open>merges\<close> and is found there
  when one slot is searched, the pair is present in the text, and the encoder returns the
  bytes unmerged, since it searches \<^verbatim>\<open>num_merges = 0\<close> slots.
\<close>

theorem encoder_skips_learned_rule:
  "train create_tokenizer aaab 257 = Inr trained_aaab \<and>
   merges trained_aaab ! 0 = Some \<lparr>pair = \<lparr>first = 97, second = 97\<rparr>, idx = 256\<rparr> \<and>
   find_pair_index (merges trained_aaab) 1 \<lparr>first = 97, second = 97\<rparr> = Inr 0 \<and>
   num_merges trained_aaab = 0 \<and>
   encode trained_aaab aaab = Inr (map uint aaab)"
  using train_aaab encode_aaab
  by (simp add: trained_aaab_fields rule_256_def aaab_def find_pair_index_def
      find_pair_index_loop.simps)

text \<open>
  C5. The claim is that the entry of a learned id is the entry of its first id followed by
  the entry of its second. Evaluated on \<^verbatim>\<open>"aaab"\<close> with target 258: the second rule merges
  \<open>(256,97)\<close> into 257, and the entry of 257 holds the two bytes \<open>[0, 97]\<close> (256 and 97 as
  \<^verbatim>\<open>unsigned char\<close>), where the entries of 256 and 97 concatenate to \<open>[97, 97, 97]\<close>.
\<close>

theorem learned_entry_holds_two_id_bytes:
  "train create_tokenizer aaab 258 = Inr trained_aaab_258 \<and>
   merges trained_aaab_258 ! 1 = Some \<lparr>pair = \<lparr>first = 256, second = 97\<rparr>, idx = 257\<rparr> \<and>
   expansion trained_aaab_258 257 = [0, 97] \<and>
   expansion trained_aaab_258 256 @ expansion trained_aaab_258 97 = [97, 97, 97]"
  using train_aaab_258
  by (simp add: trained_aaab_258_def rule_257_def expansion_def create_vocab_length
      create_vocab_nth nth_append)

text \<open>
  C6, as stated, fails: on \<^verbatim>\<open>"ab"\<close> no pair occurs more than once, the maximum count is 1,
  and training with target 257 goes on and stores a rule.
\<close>

theorem train_continues_at_count_one:
  "token_counts [97, 98] = Inr [(97, 98, 1)] \<and>
   best_loop [(97, 98, 1)] 0 \<lparr>first = 0, second = 0\<rparr> = (1, \<lparr>first = 97, second = 98\<rparr>) \<and>
   train create_tokenizer [97, 98] 257 = Inr trained_ab \<and>
   merges trained_ab = [Some \<lparr>pair = \<lparr>first = 97, second = 98\<rparr>, idx = 256\<rparr>]"
  using counts_ab train_ab by (simp add: trained_ab_def)

text \<open>
  C6, amended. At an iteration of training (one whose pair count returns) the maximum count
  is 0 exactly when the sequence has a single token, and there the loop stops and leaves
  tokenizer and sequence as they are, so fewer than \<^verbatim>\<open>num_merges\<close> rules are stored. In
  particular training on a text of one byte returns with no rule stored in \<^verbatim>\<open>merges\<close>,
  for every requested size.
\<close>

theorem train_stops_without_pairs:
  "token_counts ids = Inr tab \<Longrightarrow> i < n \<Longrightarrow>
   (fst (best_loop tab 0 \<lparr>first = 0, second = 0\<rparr>) = 0 \<longleftrightarrow> length ids = 1) \<and>
   (length ids = 1 \<longrightarrow> train_loop t ids i n = Inr (t, ids)) \<and>
   train t [b] vsize = Inr (t\<lparr>merges := malloc_merges (vsize - of_nat INITIAL_VOCAB_SIZE)\<rparr>) \<and>
   Some m \<notin> set (malloc_merges (vsize - of_nat INITIAL_VOCAB_SIZE))"
proof -
  assume tc: "token_counts ids = Inr tab" and lt: "i < n"
  let ?z = "\<lparr>first = 0, second = 0\<rparr>"
  from tc have ne: "ids \<noteq> []" by (auto simp: token_counts_def split: if_splits)
  have iff: "fst (best_loop tab 0 ?z) = 0 \<longleftrightarrow> length ids = 1"
  proof (cases "2 \<le> length ids")
    case True
    with token_counts_ok [OF tc] have ok: "tab_ok ids tab" "tab \<noteq> []" by simp_all
    obtain mc bp where b: "best_loop tab 0 ?z = (mc, bp)" by (cases "best_loop tab 0 ?z")
    from best_loop_positive [OF ok b] True b show ?thesis by simp
  next
    case False
    from ne have "0 < length ids" by simp
    with False have "length ids = 1" by linarith
    then obtain a where a: "ids = [a]" by (auto simp: length_Suc_conv)
    with tc have "tab = []" by (simp add: token_counts_single)
    with a show ?thesis by simp
  qed
  have "length ids = 1 \<longrightarrow> train_loop t ids i n = Inr (t, ids)"
    using iff train_loop_stop [OF lt tc] by simp
  with iff show ?thesis
    using train_single_byte [of t b vsize] malloc_merges_unwritten by simp
qed

theorem train_stops_without_pairs_witness:
  "token_counts [97] = Inr [] \<and> (0 :: nat) < 1 \<and>
   fst (best_loop [] 0 \<lparr>first = 0, second = 0\<rparr>) = 0 \<and>
   train_loop create_tokenizer [97] 0 1 = Inr (create_tokenizer, [97]) \<and>
   train create_tokenizer [97] 257 = Inr (create_tokenizer\<lparr>merges := [None]\<rparr>)"
proof -
  have tc: "token_counts [97] = Inr []" by (rule token_counts_single)
  have lt: "(0 :: nat) < 1" by simp
  from train_stops_without_pairs [OF tc lt, of create_tokenizer 97 257 rule_256] tc
  show ?thesis by (simp add: INITIAL_VOCAB_SIZE_def malloc_merges_1)
qed

text \<open>
  C7, as stated, fails: with target 256 \<^verbatim>\<open>train\<close> returns normally; nothing reports an
  invalid size.
\<close>

theorem train_256_returns: "train create_tokenizer aaab 256 = Inr create_tokenizer"
  by (simp add: train_256 create_tokenizer_def)

text \<open>
  C7, amended. \<^verbatim>\<open>train\<close> checks no size and has no failure to report. With target 256 it
  returns normally, stores no rule and leaves vocabulary and \<^verbatim>\<open>num_merges\<close> as they are
  (the \<^verbatim>\<open>merges\<close> array becomes an empty allocation). With a target from 257 up to
  \<^verbatim>\<open>256 + PTRDIFF_MAX / 12\<close>, the sizes whose rule array can be allocated, it returns
  normally on every non-empty text of at most \<^verbatim>\<open>MAX_TEXT_SIZE\<close> bytes.
\<close>

theorem train_no_size_check:
  "train t bs 256 = Inr (t\<lparr>merges := []\<rparr>) \<and>
   (257 \<le> vsize \<and> unat vsize \<le> 256 + PTRDIFF_MAX div 12 \<and> bs \<noteq> [] \<and> length bs \<le> MAX_TEXT_SIZE
      \<longrightarrow> (\<exists>t'. train t bs vsize = Inr t'))"
  using train_256 train_total by blast

theorem train_no_size_check_witness:
  "train create_tokenizer aaab 256 = Inr (create_tokenizer\<lparr>merges := []\<rparr>) \<and>
   (\<exists>t'. train create_tokenizer aaab 257 = Inr t')"
  using train_no_size_check [of create_tokenizer aaab 257]
  by (simp add: aaab_def MAX_TEXT_SIZE_def PTRDIFF_MAX_def)

text \<open>
  C8, as stated, fails: on a fresh tokenizer id 256 is not assigned, and \<^verbatim>\<open>decode\<close> does
  not report it; it indexes \<^verbatim>\<open>vocab\<close> past its 256 slots.
\<close>

theorem decode_unassigned_reads_outside:
  "\<not> assigned create_tokenizer 256 \<and> decode create_tokenizer [256] = Inl OutOfBounds"
  by (simp add: assigned_def create_vocab_length)

text \<open>
  C8, amended. \<^verbatim>\<open>decode\<close> checks nothing and never fails with an unknown-id error. It
  returns normally exactly when every id of the sequence is assigned (each indexes a written
  entry of \<^verbatim>\<open>vocab\<close>). When some id is not assigned it reads outside the array or through
  a slot never written: the run has a fault, which no caller can observe as an error.
\<close>

theorem decode_checks_nothing:
  "(list_all (assigned t) ids \<longrightarrow> (\<exists>bs. decode t ids = Inr bs)) \<and>
   (\<not> list_all (assigned t) ids \<longrightarrow> (\<exists>e. decode t ids = Inl e))"
  using decode_assigned decode_unassigned by blast

theorem decode_checks_nothing_witness:
  "list_all (assigned trained_aaab) [256, 97, 98] \<and>
   (\<exists>bs. decode trained_aaab [256, 97, 98] = Inr bs)"
  using decode_checks_nothing [of trained_aaab "[256, 97, 98]"]
  by (simp add: assigned_aaab)

text \<open>
  C9. For every token sequence (a sequence that fits the 1024-slot buffer of the Merger),
  target pair and new id, \<^verbatim>\<open>merge\<close> returns what the left-to-right scan of the
  specification returns: each leftmost, non-overlapping occurrence of the target pair is
  replaced by the new id and every other position is copied. The output is never longer
  than the input, and \<open>[5,5,5]\<close> with target \<open>(5,5)\<close> gives \<open>[new_id, 5]\<close>.
\<close>

theorem merge_greedy_leftmost:
  "length ids \<le> MAX_TEXT_SIZE \<Longrightarrow>
   merge ids p new_id = Inr (apply_spec ids p new_id) \<and>
   length (apply_spec ids p new_id) \<le> length ids \<and>
   merge [5, 5, 5] \<lparr>first = 5, second = 5\<rparr> new_id = Inr [new_id, 5]"
proof -
  assume cap: "length ids \<le> MAX_TEXT_SIZE"
  have len: "length (apply_spec ids p new_id) \<le> length ids"
    by (rule apply_spec_length)
  with cap have "merge ids p new_id = Inr (apply_spec ids p new_id)"
    by (simp add: merge_spec)
  moreover have "merge [5, 5, 5] \<lparr>first = 5, second = 5\<rparr> new_id = Inr [new_id, 5]"
    by (simp add: merge_spec MAX_TEXT_SIZE_def)
  ultimately show ?thesis using len by simp
qed

theorem merge_greedy_leftmost_witness:
  "length [5, 5, 5, 7 :: int] \<le> MAX_TEXT_SIZE \<and>
   merge [5, 5, 5, 7] \<lparr>first = 5, second = 5\<rparr> 256 = Inr [256, 5, 7] \<and>
   length [256, 5, 7 :: int] \<le> length [5, 5, 5, 7 :: int]"
  using merge_greedy_leftmost [of "[5, 5, 5, 7]" "\<lparr>first = 5, second = 5\<rparr>" 256]
  by (simp add: MAX_TEXT_SIZE_def)

text \<open>
  C10. For every tokenizer, trained or not, \<^verbatim>\<open>encode\<close> of the empty text returns the empty
  token sequence and \<^verbatim>\<open>decode\<close> of the empty id sequence returns the empty text.
\<close>

theorem encode_decode_empty:
  "encode t [] = Inr [] \<and> decode t [] = Inr []"
  by (simp add: encode_def encode_loop.simps)

end
